theory Spec2Isabelle
  imports Complex_Main "HOL-Library.Sublist"
begin

section \<open>Strings of the inbound message\<close>

text \<open>
  A JavaScript string is a sequence of UTF-16 code units; a code unit is modelled as a
  natural number. \<open>lit\<close> turns an ASCII literal of the source into such a sequence.
\<close>

type_synonym jsstring = "nat list"

definition lit :: "string \<Rightarrow> jsstring" where
  "lit cs = map of_char cs"

text \<open>
  The white space and line terminator code points of ECMAScript, which
  \<^verbatim>\<open>String.prototype.trim\<close> and \<^verbatim>\<open>parseInt\<close> strip:
  TAB, LF, VT, FF, CR, SP, NBSP, U+1680, U+2000..U+200A, U+2028, U+2029, U+202F,
  U+205F, U+3000 and U+FEFF.
\<close>

definition isWhiteSpace :: "nat \<Rightarrow> bool" where
  "isWhiteSpace c =
     ((9 \<le> c \<and> c \<le> 13) \<or> c = 32 \<or> c = 160 \<or> c = 5760 \<or> (8192 \<le> c \<and> c \<le> 8202)
      \<or> c = 8232 \<or> c = 8233 \<or> c = 8239 \<or> c = 8287 \<or> c = 12288 \<or> c = 65279)"

definition trim :: "jsstring \<Rightarrow> jsstring" where
  "trim s = rev (dropWhile isWhiteSpace (rev (dropWhile isWhiteSpace s)))"

text \<open>
  Case folding of a regular expression with the \<^verbatim>\<open>i\<close> flag (and no \<^verbatim>\<open>u\<close> flag):
  a code unit is compared by its upper-case form, and a code unit from 128 on never folds
  to an ASCII one. The pattern of the handler has ASCII letters only, so only the folding
  of ASCII code units decides a match; the others are left as they are.
\<close>

definition canonicalize :: "nat \<Rightarrow> nat" where
  "canonicalize c = (if 97 \<le> c \<and> c \<le> 122 then c - 32 else c)"

text \<open>
  \<^verbatim>\<open>/^start|test$/i.test(body)\<close>: the alternation binds weaker than the anchors, so
  the pattern has the two alternatives \<^verbatim>\<open>^start\<close> and \<^verbatim>\<open>test$\<close>. Without the
  \<^verbatim>\<open>m\<close> flag the anchors match at the two ends of the input only.
\<close>

definition start_regex_test :: "jsstring \<Rightarrow> bool" where
  "start_regex_test body =
     (prefix (map canonicalize (lit ''start'')) (map canonicalize body)
      \<or> suffix (map canonicalize (lit ''test'')) (map canonicalize body))"

text \<open>
  \<^verbatim>\<open>parseInt(body, 10)\<close>: leading white space is skipped, one sign is read, then the
  longest run of decimal digits; no digit gives NaN, which is \<open>None\<close> here. The result is
  the mathematical integer. The handler only compares it with 1, with the length of an
  array and with the \<^verbatim>\<open>correct\<close> field; the double that JavaScript computes differs
  from the integer only far above the length of any array, where each comparison has the
  same outcome.
\<close>

definition isDigit :: "nat \<Rightarrow> bool" where
  "isDigit c = (48 \<le> c \<and> c \<le> 57)"

definition digitsValue :: "nat list \<Rightarrow> int" where
  "digitsValue ds = foldl (\<lambda>acc c. 10 * acc + int (c - 48)) 0 ds"

definition parseInt10 :: "jsstring \<Rightarrow> int option" where
  "parseInt10 inputString =
     (let S = dropWhile isWhiteSpace inputString;
          sign = (case S of [] \<Rightarrow> 1 | c # _ \<Rightarrow> if c = 45 then - 1 else (1::int));
          S' = (case S of [] \<Rightarrow> S | c # rest \<Rightarrow> if c = 43 \<or> c = 45 then rest else S);
          Z = takeWhile isDigit S'
      in if Z = [] then None else Some (sign * digitsValue Z))"

section \<open>Data model\<close>

text \<open>
  A question is a row of the sheet, as \<^verbatim>\<open>readQuestions\<close> builds it. The fields
  \<^verbatim>\<open>passage\<close> and \<^verbatim>\<open>rationale\<close> are absent when the row is short.
\<close>

record question =
  q_id :: jsstring
  q_section :: jsstring
  q_stem :: jsstring
  q_passage :: "jsstring option"
  q_options :: "jsstring list"
  q_correct :: int
  q_rationale :: "jsstring option"
  q_difficulty :: jsstring

record answer =
  a_qid :: jsstring
  a_section :: jsstring
  a_selected :: int
  a_correct :: int
  a_isCorrect :: bool
  a_latency :: int

datatype session_state = IDLE | ASKING | WAITING_ANSWER

record session =
  state :: session_state
  sectionIndex :: nat
  asked :: "jsstring list"
  answers :: "answer list"
  qStart :: int
  currentQ :: "question option"

text \<open>The default of the handler when the store has no session for the sender.\<close>

definition fresh_session :: "int \<Rightarrow> session" where
  "fresh_session now =
     \<lparr>state = IDLE, sectionIndex = 0, asked = [], answers = [], qStart = now,
      currentQ = None\<rparr>"

section \<open>Question logic\<close>

definition SECTIONS :: "jsstring list" where
  "SECTIONS = [lit ''Inference'', lit ''Assumptions'', lit ''Deduction'',
               lit ''Interpretation'', lit ''Arguments'']"

text \<open>
  \<open>random\<close> is the value of \<^verbatim>\<open>Math.random()\<close>, a number from 0 (included) to 1
  (excluded). An index outside the pool reads \<^verbatim>\<open>undefined\<close>, which every caller
  treats as \<^verbatim>\<open>null\<close>.
\<close>

definition poolOf :: "question list \<Rightarrow> jsstring \<Rightarrow> jsstring set \<Rightarrow> question list" where
  "poolOf qs section askedIds =
     filter (\<lambda>q. q_section q = section \<and> q_id q \<notin> askedIds) qs"

definition pickNextQuestion ::
  "real \<Rightarrow> question list \<Rightarrow> jsstring \<Rightarrow> jsstring set \<Rightarrow> question option" where
  "pickNextQuestion random qs section askedIds =
     (let pool = poolOf qs section askedIds in
      if length pool = 0 then None
      else let i = \<lfloor>random * real (length pool)\<rfloor> in
           if 0 \<le> i \<and> i < int (length pool) then Some (pool ! nat i) else None)"

section \<open>Scoring\<close>

text \<open>
  The scoring block of the handler. \<^verbatim>\<open>bySection\<close> is an object used as a dictionary
  from section names to counters; it is a map here. Its keys are the sections of the
  recorded answers, and only the keys of \<open>SECTIONS\<close> are read back.
\<close>

record stats =
  s_total :: nat
  s_correct :: nat
  s_wrongIds :: "jsstring list"

definition tally_step :: "(jsstring \<rightharpoonup> stats) \<Rightarrow> answer \<Rightarrow> (jsstring \<rightharpoonup> stats)" where
  "tally_step bySection a =
     (let m0 = (case bySection (a_section a) of
                  None \<Rightarrow> \<lparr>s_total = 0, s_correct = 0, s_wrongIds = []\<rparr>
                | Some m \<Rightarrow> m);
          m1 = m0\<lparr>s_total := s_total m0 + 1\<rparr>;
          m2 = (if a_isCorrect a then m1\<lparr>s_correct := s_correct m1 + 1\<rparr>
                else m1\<lparr>s_wrongIds := s_wrongIds m1 @ [a_qid a]\<rparr>)
      in bySection(a_section a \<mapsto> m2))"

definition bySectionOf :: "answer list \<Rightarrow> (jsstring \<rightharpoonup> stats)" where
  "bySectionOf as = foldl tally_step Map.empty as"

definition totals_step :: "(jsstring \<rightharpoonup> stats) \<Rightarrow> nat \<times> nat \<Rightarrow> jsstring \<Rightarrow> nat \<times> nat" where
  "totals_step bySection acc s =
     (case bySection s of
        None \<Rightarrow> acc
      | Some m \<Rightarrow> (fst acc + s_correct m, snd acc + s_total m))"

text \<open>The pair is \<^verbatim>\<open>(totalCorrect, total)\<close>.\<close>

definition totalsOf :: "(jsstring \<rightharpoonup> stats) \<Rightarrow> nat \<times> nat" where
  "totalsOf bySection = foldl (totals_step bySection) (0, 0) SECTIONS"

text \<open>
  \<^verbatim>\<open>Math.round\<close> rounds to the nearest integer, a tie towards plus infinity. The
  quotient is taken in the reals: the double quotient of two counts is within one
  rounding error of it, which cannot carry it across a tie of a quotient with a
  denominator of the size of an answer list.
\<close>

definition Math_round :: "real \<Rightarrow> int" where
  "Math_round x = \<lfloor>x + 1 / 2\<rfloor>"

definition pctOf :: "nat \<Rightarrow> nat \<Rightarrow> int" where
  "pctOf totalCorrect total' =
     (if total' \<noteq> 0 then Math_round ((100 * real totalCorrect) / real total') else 0)"

text \<open>A feedback line \<^verbatim>\<open>${s}: ${qWrong.rationale}\<close> is the pair of its two parts.\<close>

definition rationale_step ::
  "question list \<Rightarrow> (jsstring \<rightharpoonup> stats) \<Rightarrow> (jsstring \<times> jsstring) list \<Rightarrow> jsstring
   \<Rightarrow> (jsstring \<times> jsstring) list" where
  "rationale_step questions bySection rationaleLines s =
     (case bySection s of
        None \<Rightarrow> rationaleLines
      | Some m \<Rightarrow>
          (case s_wrongIds m of
             [] \<Rightarrow> rationaleLines
           | w # _ \<Rightarrow>
               (case find (\<lambda>q. q_id q = w) questions of
                  None \<Rightarrow> rationaleLines
                | Some qWrong \<Rightarrow>
                    (case q_rationale qWrong of
                       None \<Rightarrow> rationaleLines
                     | Some r \<Rightarrow>
                         if r = [] then rationaleLines else rationaleLines @ [(s, r)]))))"

definition rationaleLinesOf ::
  "question list \<Rightarrow> (jsstring \<rightharpoonup> stats) \<Rightarrow> (jsstring \<times> jsstring) list" where
  "rationaleLinesOf questions bySection =
     foldl (rationale_step questions bySection) [] SECTIONS"

section \<open>The webhook handler\<close>

text \<open>
  What the handler sends with \<^verbatim>\<open>sendWA\<close>, one constructor for each message template
  with the values the template interpolates: the start acknowledgment; the validation
  prompt with \<^verbatim>\<open>q.options.length\<close>; the result with \<^verbatim>\<open>totalCorrect\<close>,
  \<^verbatim>\<open>total\<close>, \<^verbatim>\<open>pct\<close> and the feedback lines (no line, no feedback part); the
  skip notice with the section; the question with its section, the passage when it is
  shown, the stem and the options.
\<close>

datatype reply =
    Started
  | PleaseReply nat
  | TestComplete nat nat int "(jsstring \<times> jsstring) list"
  | Skipping jsstring
  | AskQuestion jsstring "jsstring option" jsstring "jsstring list"

text \<open>What the handler passes to \<^verbatim>\<open>appendAttempt\<close>; the attempt id is made of the
  user id, the question id and the clock, which is the last field.\<close>

record attempt =
  at_user_id :: jsstring
  at_qid :: jsstring
  at_section :: jsstring
  at_selected :: int
  at_correct :: int
  at_is_correct :: bool
  at_latency_ms :: int
  at_id_time :: int

text \<open>
  What one run of the handler reads from outside: the rows of \<^verbatim>\<open>readQuestions()\<close>,
  the value of \<^verbatim>\<open>Math.random()\<close> and the values of \<^verbatim>\<open>Date.now()\<close> where an
  answer is recorded, where the attempt id is made and where a question is sent.
\<close>

record env =
  e_questions :: "question list"
  e_random :: real
  e_now_answer :: int
  e_now_attempt :: int
  e_now_ask :: int

text \<open>
  What one run of the handler leaves: the session object, the messages sent, the attempts
  logged, and whether \<^verbatim>\<open>setSession\<close> was called. Reading a property of an absent
  \<^verbatim>\<open>currentQ\<close> throws.
\<close>

record outcome =
  o_session :: session
  o_replies :: "reply list"
  o_attempts :: "attempt list"
  o_persisted :: bool

datatype js_error = TypeError

datatype 'a flow = Proceed 'a | Return 'a

text \<open>\<^verbatim>\<open>(req.body.Body || "").trim()\<close>\<close>

definition inbound_body :: "jsstring option \<Rightarrow> jsstring" where
  "inbound_body Body = trim (case Body of None \<Rightarrow> [] | Some b \<Rightarrow> b)"

text \<open>The block "Start test".\<close>

definition start_test :: "jsstring \<Rightarrow> session \<Rightarrow> session \<times> reply list" where
  "start_test body session =
     (if state session = IDLE \<and> start_regex_test body
      then (session\<lparr>state := ASKING, sectionIndex := 0, answers := []\<rparr>, [Started])
      else (session, []))"

text \<open>The block "Record answer".\<close>

definition record_answer ::
  "env \<Rightarrow> jsstring \<Rightarrow> jsstring \<Rightarrow> outcome \<Rightarrow> js_error + outcome flow" where
  "record_answer e userId body out =
     (let session = o_session out in
      if state session = WAITING_ANSWER then
        (let num = parseInt10 body in
         case currentQ session of
           None \<Rightarrow> Inl TypeError
         | Some q \<Rightarrow>
             if (case num of None \<Rightarrow> True
                 | Some n \<Rightarrow> n < 1 \<or> n > int (length (q_options q)))
             then Inr (Return (out\<lparr>o_replies :=
                                      o_replies out @ [PleaseReply (length (q_options q))]\<rparr>))
             else
               (let n = (case num of None \<Rightarrow> 0 | Some n \<Rightarrow> n);
                    latency = e_now_answer e - qStart session;
                    isCorrect = (n = q_correct q);
                    a = \<lparr>a_qid = q_id q, a_section = q_section q, a_selected = n,
                         a_correct = q_correct q, a_isCorrect = isCorrect,
                         a_latency = latency\<rparr>;
                    att = \<lparr>at_user_id = userId, at_qid = q_id q, at_section = q_section q,
                           at_selected = n, at_correct = q_correct q,
                           at_is_correct = isCorrect, at_latency_ms = latency,
                           at_id_time = e_now_attempt e\<rparr>
                in Inr (Proceed (out\<lparr>o_session :=
                                         session\<lparr>answers := answers session @ [a],
                                                 state := ASKING, currentQ := None\<rparr>,
                                       o_attempts := o_attempts out @ [att]\<rparr>))))
      else Inr (Proceed out))"

text \<open>The set \<^verbatim>\<open>askedIds\<close> of the block "Ask next question".\<close>

definition askedIdsOf :: "answer list \<Rightarrow> jsstring \<Rightarrow> jsstring set" where
  "askedIdsOf as section = set (map a_qid (filter (\<lambda>a. a_section a = section) as))"

text \<open>
  The block "Ask next question" and the \<^verbatim>\<open>setSession\<close> that ends the handler: every
  path from here stores the session.
\<close>

definition ask_next :: "env \<Rightarrow> outcome \<Rightarrow> outcome" where
  "ask_next e out =
     (let session = o_session out in
      if state session = ASKING then
        if sectionIndex session \<ge> length SECTIONS then
          (let bySection = bySectionOf (answers session);
               totalCorrect = fst (totalsOf bySection);
               total' = snd (totalsOf bySection);
               pct = pctOf totalCorrect total';
               rationaleLines = rationaleLinesOf (e_questions e) bySection
           in out\<lparr>o_replies :=
                      o_replies out @ [TestComplete totalCorrect total' pct rationaleLines],
                    o_session := session\<lparr>state := IDLE\<rparr>,
                    o_persisted := True\<rparr>)
        else
          (let section = SECTIONS ! sectionIndex session;
               askedIds = askedIdsOf (answers session) section
           in case pickNextQuestion (e_random e) (e_questions e) section askedIds of
                None \<Rightarrow>
                  out\<lparr>o_session := session\<lparr>sectionIndex := sectionIndex session + 1\<rparr>,
                      o_persisted := True,
                      o_replies := o_replies out @ [Skipping section]\<rparr>
              | Some q \<Rightarrow>
                  (let passage = (case q_passage q of
                                    None \<Rightarrow> None
                                  | Some p \<Rightarrow> if p = [] then None else Some p)
                   in out\<lparr>o_replies :=
                              o_replies out @
                                [AskQuestion section passage (q_stem q) (q_options q)],
                            o_session :=
                              session\<lparr>currentQ := Some q, qStart := e_now_ask e,
                                      state := WAITING_ANSWER,
                                      sectionIndex := sectionIndex session + 1\<rparr>,
                            o_persisted := True\<rparr>))
      else out\<lparr>o_persisted := True\<rparr>)"

text \<open>
  The handler on the loaded session, from \<^verbatim>\<open>readQuestions\<close> on. \<open>body\<close> is the
  trimmed text of the message and \<open>userId\<close> its sender. The three blocks run in the
  order of the source; the second one can end the run. The calls to the outside
  (\<^verbatim>\<open>readQuestions\<close>, \<^verbatim>\<open>sendWA\<close>, \<^verbatim>\<open>setSession\<close>) are taken to succeed, and
  a failure of \<^verbatim>\<open>appendAttempt\<close> is dropped by the source itself.
\<close>

definition handler :: "env \<Rightarrow> jsstring \<Rightarrow> jsstring \<Rightarrow> session \<Rightarrow> js_error + outcome" where
  "handler e userId body session0 =
     (let started = start_test body session0;
          out1 = \<lparr>o_session = fst started, o_replies = snd started, o_attempts = [],
                  o_persisted = False\<rparr>
      in case record_answer e userId body out1 of
           Inl err \<Rightarrow> Inl err
         | Inr (Return out2) \<Rightarrow> Inr out2
         | Inr (Proceed out2) \<Rightarrow> Inr (ask_next e out2))"

text \<open>
  The sessions the handler can load: the default one, and what a run of the handler
  leaves of a session it could load, for any questions, random number, clock, sender and
  text. Every path that changes the session stores it, and a run that throws has not
  changed the session yet.
\<close>

inductive reachable :: "session \<Rightarrow> bool" where
  fresh: "reachable (fresh_session now)"
| step: "reachable s \<Longrightarrow> handler e userId body s = Inr out \<Longrightarrow> reachable (o_session out)"

section \<open>The in-memory session store\<close>

text \<open>
  \<^verbatim>\<open>memStore\<close> maps a key to a record of the value and its expiry time; \<open>now\<close>
  is the value of \<^verbatim>\<open>Date.now()\<close>, in milliseconds since the epoch, and \<open>ttl\<close> a
  number of seconds. \<open>memGet\<close> returns what the source returns together with the
  store as the call leaves it; \<open>memSet\<close> returns the store.
\<close>

record 'v mem_rec =
  r_value :: 'v
  r_expires :: int

type_synonym 'v mem_store = "jsstring \<rightharpoonup> 'v mem_rec"

definition memGet :: "int \<Rightarrow> jsstring \<Rightarrow> 'v mem_store \<Rightarrow> 'v option \<times> 'v mem_store" where
  "memGet now key memStore =
     (case memStore key of
        None \<Rightarrow> (None, memStore)
      | Some rec \<Rightarrow>
          if r_expires rec \<noteq> 0 \<and> now > r_expires rec
          then (None, memStore(key := None))
          else (Some (r_value rec), memStore))"

definition memSet :: "int \<Rightarrow> jsstring \<Rightarrow> 'v \<Rightarrow> nat \<Rightarrow> 'v mem_store \<Rightarrow> 'v mem_store" where
  "memSet now key val ttl memStore =
     memStore(key \<mapsto> \<lparr>r_value = val, r_expires = now + int ttl * 1000\<rparr>)"

section \<open>Notions of the statements: the words of the specification, the invariant\<close>

text \<open>
  The start words of the specification: the text is "start" or "test", whatever the case
  of its letters.
\<close>

definition is_start_word :: "jsstring \<Rightarrow> bool" where
  "is_start_word body =
     (map canonicalize body = map canonicalize (lit ''start'')
      \<or> map canonicalize body = map canonicalize (lit ''test''))"

text \<open>
  The counters of a section, from the answers: absent when the section has no answer,
  otherwise the number of its answers, the number of its correct answers and the
  question ids of its incorrect answers, in the order of the answers.
\<close>

definition statsOf :: "answer list \<Rightarrow> jsstring \<Rightarrow> stats option" where
  "statsOf as s =
     (if filter (\<lambda>a. a_section a = s) as = [] then None
      else Some \<lparr>s_total = length (filter (\<lambda>a. a_section a = s) as),
                 s_correct = length (filter (\<lambda>a. a_section a = s \<and> a_isCorrect a) as),
                 s_wrongIds =
                   map a_qid (filter (\<lambda>a. a_section a = s \<and> \<not> a_isCorrect a) as)\<rparr>)"

text \<open>The per-section counts that the second loop of the scoring adds up.\<close>

definition sectionCorrect :: "(jsstring \<rightharpoonup> stats) \<Rightarrow> jsstring \<Rightarrow> nat" where
  "sectionCorrect bySection s = (case bySection s of None \<Rightarrow> 0 | Some m \<Rightarrow> s_correct m)"

definition sectionTotal :: "(jsstring \<rightharpoonup> stats) \<Rightarrow> jsstring \<Rightarrow> nat" where
  "sectionTotal bySection s = (case bySection s of None \<Rightarrow> 0 | Some m \<Rightarrow> s_total m)"

text \<open>
  The feedback of a section, in the words of the specification: take the first incorrect
  answer of the section, look its question up in the question list, and take the
  rationale of that question when it is present and not empty. The section has one
  feedback line when there is such a rationale, and none otherwise.
\<close>

definition firstIncorrect :: "answer list \<Rightarrow> jsstring \<Rightarrow> answer option" where
  "firstIncorrect as s = find (\<lambda>a. a_section a = s \<and> \<not> a_isCorrect a) as"

definition feedbackRationale ::
  "question list \<Rightarrow> answer list \<Rightarrow> jsstring \<Rightarrow> jsstring option" where
  "feedbackRationale qs as s =
     (case firstIncorrect as s of
        None \<Rightarrow> None
      | Some a \<Rightarrow>
          (case find (\<lambda>q. q_id q = a_qid a) qs of
             None \<Rightarrow> None
           | Some q \<Rightarrow>
               (case q_rationale q of
                  None \<Rightarrow> None
                | Some r \<Rightarrow> if r = [] then None else Some r)))"

definition feedbackLine ::
  "question list \<Rightarrow> answer list \<Rightarrow> jsstring \<Rightarrow> (jsstring \<times> jsstring) list" where
  "feedbackLine qs as s =
     (case feedbackRationale qs as s of None \<Rightarrow> [] | Some r \<Rightarrow> [(s, r)])"

text \<open>
  The invariant of the sessions: the index stays within the sections, no two answers
  have the same section, and the answers are of sections before the index; while a
  question is pending it is the question of the section just before the index, and that
  section has no answer yet.
\<close>

definition session_inv :: "session \<Rightarrow> bool" where
  "session_inv s \<longleftrightarrow>
     sectionIndex s \<le> length SECTIONS
     \<and> distinct (map a_section (answers s))
     \<and> (case state s of
          WAITING_ANSWER \<Rightarrow>
            (case currentQ s of
               None \<Rightarrow> False
             | Some q \<Rightarrow>
                 0 < sectionIndex s
                 \<and> q_section q = SECTIONS ! (sectionIndex s - 1)
                 \<and> set (map a_section (answers s))
                     \<subseteq> set (take (sectionIndex s - 1) SECTIONS))
        | _ \<Rightarrow> set (map a_section (answers s)) \<subseteq> set (take (sectionIndex s) SECTIONS))"

section \<open>Sample data of the worked instances\<close>

definition sample_question :: "string \<Rightarrow> string \<Rightarrow> question" where
  "sample_question i sec =
     \<lparr>q_id = lit i, q_section = lit sec, q_stem = lit ''Is it so?'', q_passage = None,
      q_options = [lit ''yes'', lit ''no''], q_correct = 1,
      q_rationale = Some (lit ''because''), q_difficulty = lit ''M''\<rparr>"

definition sample_env :: "question list \<Rightarrow> int \<Rightarrow> env" where
  "sample_env qs t =
     \<lparr>e_questions = qs, e_random = 1 / 2, e_now_answer = t, e_now_attempt = t + 1,
      e_now_ask = t + 2\<rparr>"

text \<open>The session after "start", with one question of the first section in the sheet.\<close>

definition sample_waiting :: session where
  "sample_waiting =
     \<lparr>state = WAITING_ANSWER, sectionIndex = 1, asked = [], answers = [], qStart = 1002,
      currentQ = Some (sample_question ''q1'' ''Inference'')\<rparr>"

text \<open>The answer "2" to that question, which is incorrect, and the session after it.\<close>

definition sample_answer :: answer where
  "sample_answer =
     \<lparr>a_qid = lit ''q1'', a_section = lit ''Inference'', a_selected = 2, a_correct = 1,
      a_isCorrect = False, a_latency = 7998\<rparr>"

definition sample_answered :: session where
  "sample_answered =
     \<lparr>state = ASKING, sectionIndex = 2, asked = [], answers = [sample_answer],
      qStart = 1002, currentQ = None\<rparr>"

section \<open>Properties of the question selector\<close>

lemma random_index_in_pool:
  fixes r :: real
  assumes "0 \<le> r" and "r < 1" and "0 < n"
  shows "0 \<le> \<lfloor>r * real n\<rfloor> \<and> \<lfloor>r * real n\<rfloor> < int n"
proof -
  have "0 \<le> r * real n"
    using assms by simp
  moreover have "r * real n < real n"
    using assms by simp
  ultimately show ?thesis
    by (simp add: floor_less_iff)
qed

lemma pickNextQuestion_empty_pool:
  "poolOf qs section askedIds = [] \<Longrightarrow> pickNextQuestion random qs section askedIds = None"
  by (simp add: pickNextQuestion_def)

lemma pickNextQuestion_in_pool:
  "pickNextQuestion random qs section askedIds = Some q \<Longrightarrow> q \<in> set (poolOf qs section askedIds)"
proof -
  assume a: "pickNextQuestion random qs section askedIds = Some q"
  define pool where "pool = poolOf qs section askedIds"
  define i where "i = \<lfloor>random * real (length pool)\<rfloor>"
  from a have b: "0 \<le> i \<and> i < int (length pool) \<and> q = pool ! nat i"
    by (simp add: pickNextQuestion_def Let_def pool_def i_def split: if_splits)
  then have "nat i < length pool"
    by linarith
  with b have "q \<in> set pool"
    by simp
  then show ?thesis
    unfolding pool_def by simp
qed

text \<open>
  C3. For a random number from 0 to 1 (1 excluded), \<open>pickNextQuestion\<close> returns
  nothing exactly when no question of the list has the target section and an id outside
  the asked set; a question it returns is one of the list, has the target section and an
  id that is not in the asked set.
\<close>

theorem pickNextQuestion_spec:
  assumes "0 \<le> random" and "random < 1"
  shows "(pickNextQuestion random qs section askedIds = None
            \<longleftrightarrow> \<not> (\<exists>q \<in> set qs. q_section q = section \<and> q_id q \<notin> askedIds))
         \<and> (\<forall>q. pickNextQuestion random qs section askedIds = Some q
               \<longrightarrow> q \<in> set qs \<and> q_section q = section \<and> q_id q \<notin> askedIds)"
proof -
  define pool where "pool = poolOf qs section askedIds"
  show ?thesis
  proof (cases "pool = []")
    case True
    then have "pickNextQuestion random qs section askedIds = None"
      by (simp add: pickNextQuestion_def pool_def)
    moreover have "\<not> (\<exists>q \<in> set qs. q_section q = section \<and> q_id q \<notin> askedIds)"
      using True by (auto simp: pool_def poolOf_def filter_empty_conv)
    ultimately show ?thesis
      by simp
  next
    case False
    then have n: "0 < length pool"
      by simp
    define i where "i = \<lfloor>random * real (length pool)\<rfloor>"
    have i: "0 \<le> i" "i < int (length pool)"
      using random_index_in_pool [OF assms n] by (simp_all add: i_def)
    have eq: "pickNextQuestion random qs section askedIds = Some (pool ! nat i)"
      using False i
      by (simp add: pickNextQuestion_def pool_def [symmetric] i_def [symmetric] Let_def)
    have "pool ! nat i \<in> set pool"
      using i by simp
    then have mem: "pool ! nat i \<in> set qs \<and> q_section (pool ! nat i) = section
        \<and> q_id (pool ! nat i) \<notin> askedIds"
      by (simp add: pool_def poolOf_def)
    have "\<exists>q \<in> set qs. q_section q = section \<and> q_id q \<notin> askedIds"
      using mem by blast
    with eq mem show ?thesis
      by simp
  qed
qed

theorem pickNextQuestion_spec_witness:
  "(0::real) \<le> 1 / 2 \<and> (1 / 2 :: real) < 1
   \<and> pickNextQuestion (1 / 2)
        [sample_question ''q1'' ''Inference'', sample_question ''q2'' ''Deduction'',
         sample_question ''q3'' ''Inference'']
        (lit ''Inference'') {lit ''q1''}
      = Some (sample_question ''q3'' ''Inference'')
   \<and> sample_question ''q3'' ''Inference''
      \<in> set [sample_question ''q1'' ''Inference'', sample_question ''q2'' ''Deduction'',
         sample_question ''q3'' ''Inference'']
   \<and> q_section (sample_question ''q3'' ''Inference'') = lit ''Inference''
   \<and> q_id (sample_question ''q3'' ''Inference'') \<notin> {lit ''q1''}"
  using pickNextQuestion_spec [of "1 / 2"
      "[sample_question ''q1'' ''Inference'', sample_question ''q2'' ''Deduction'',
        sample_question ''q3'' ''Inference'']" "lit ''Inference''" "{lit ''q1''}"]
  by (simp add: pickNextQuestion_def poolOf_def sample_question_def lit_def)

section \<open>Round trip through the in-memory store\<close>

text \<open>
  C7. A value set at time \<open>t0\<close> (a clock after the epoch) with \<open>ttl\<close> seconds is what
  \<open>memGet\<close> returns for the key at any time up to \<open>ttl\<close> seconds later; at a later time
  \<open>memGet\<close> returns nothing and leaves the store without the key.
\<close>

theorem memStore_roundtrip:
  assumes "0 < t0"
  shows "(t1 \<le> t0 + int ttl * 1000 \<longrightarrow>
            fst (memGet t1 key (memSet t0 key v ttl memStore)) = Some v)
         \<and> (t1 > t0 + int ttl * 1000 \<longrightarrow>
            memGet t1 key (memSet t0 key v ttl memStore)
              = (None, (memSet t0 key v ttl memStore)(key := None)))"
  using assms by (simp add: memGet_def memSet_def)

theorem memStore_roundtrip_witness:
  "(0::int) < 1000
   \<and> fst (memGet 3000 (lit ''u1'') (memSet 1000 (lit ''u1'') (fresh_session 1000) 3600 Map.empty))
       = Some (fresh_session 1000)
   \<and> memGet 3601001 (lit ''u1'') (memSet 1000 (lit ''u1'') (fresh_session 1000) 3600 Map.empty)
       = (None, Map.empty)"
  using memStore_roundtrip [of 1000 3000 3600 "lit ''u1''" "fresh_session 1000" Map.empty]
    memStore_roundtrip [of 1000 3601001 3600 "lit ''u1''" "fresh_session 1000" Map.empty]
  by (simp add: memSet_def)

section \<open>The start trigger\<close>

lemma start_word_fires: "is_start_word body \<Longrightarrow> start_regex_test body"
  by (auto simp: is_start_word_def start_regex_test_def)

lemma start_test_fires_iff:
  "snd (start_test body s) = [Started] \<longleftrightarrow> state s = IDLE \<and> start_regex_test body"
  by (simp add: start_test_def)

lemma start_test_effect:
  "state s = IDLE \<Longrightarrow> start_regex_test body \<Longrightarrow>
   start_test body s = (s\<lparr>state := ASKING, sectionIndex := 0, answers := []\<rparr>, [Started])"
  by (simp add: start_test_def)

text \<open>
  C1. The claim is that the start transition of an idle session fires for the texts
  "start" and "test" in any case and for no other text. The pattern of the handler
  matches every text that begins with "start" or ends with "test": on the idle default
  session the text "contest", which is not a start word, fires the transition (the state
  becomes \<open>ASKING\<close>, the index 0 and the answers empty) and the handler goes on to the
  first section in the same run.
\<close>

theorem start_fires_on_contest:
  "state (fresh_session 0) = IDLE
   \<and> \<not> is_start_word (lit ''contest'')
   \<and> start_test (lit ''contest'') (fresh_session 0)
       = (\<lparr>state = ASKING, sectionIndex = 0, asked = [], answers = [], qStart = 0,
           currentQ = None\<rparr>, [Started])
   \<and> handler (sample_env [] 1000) (lit ''u1'') (lit ''contest'') (fresh_session 0)
       = Inr \<lparr>o_session = \<lparr>state = ASKING, sectionIndex = 1, asked = [], answers = [],
                            qStart = 0, currentQ = None\<rparr>,
              o_replies = [Started, Skipping (lit ''Inference'')], o_attempts = [],
              o_persisted = True\<rparr>"
proof -
  have m: "start_regex_test (lit ''contest'')"
    by (simp add: start_regex_test_def lit_def canonicalize_def suffix_def)
  have w: "\<not> is_start_word (lit ''contest'')"
    by (simp add: is_start_word_def lit_def canonicalize_def)
  have st: "start_test (lit ''contest'') (fresh_session 0)
       = (\<lparr>state = ASKING, sectionIndex = 0, asked = [], answers = [], qStart = 0,
           currentQ = None\<rparr>, [Started])"
    using m by (simp add: start_test_def fresh_session_def)
  have h: "handler (sample_env [] 1000) (lit ''u1'') (lit ''contest'') (fresh_session 0)
       = Inr \<lparr>o_session = \<lparr>state = ASKING, sectionIndex = 1, asked = [], answers = [],
                            qStart = 0, currentQ = None\<rparr>,
              o_replies = [Started, Skipping (lit ''Inference'')], o_attempts = [],
              o_persisted = True\<rparr>"
    by (simp add: handler_def st record_answer_def ask_next_def Let_def SECTIONS_def
        pickNextQuestion_def poolOf_def sample_env_def)
  show ?thesis
    using w st h by (simp add: fresh_session_def)
qed

section \<open>Answer validation\<close>

text \<open>
  C2. In a session that waits for the answer to a question, a text that
  \<^verbatim>\<open>parseInt\<close> does not read as a number, or reads as a number below 1 or above the
  number of options of the question, leaves the session as it was: the handler returns
  with the same session (state, pending question, index and answers), the validation
  prompt as its only reply, no attempt logged and nothing stored.
\<close>

theorem invalid_answer_leaves_session:
  assumes "state s = WAITING_ANSWER" and "currentQ s = Some q"
    and "parseInt10 body = None
         \<or> (\<exists>n. parseInt10 body = Some n \<and> (n < 1 \<or> n > int (length (q_options q))))"
  shows "handler e userId body s
         = Inr \<lparr>o_session = s, o_replies = [PleaseReply (length (q_options q))],
                o_attempts = [], o_persisted = False\<rparr>"
  using assms
  by (auto simp: handler_def start_test_def record_answer_def Let_def)

theorem invalid_answer_leaves_session_witness:
  "state sample_waiting = WAITING_ANSWER
   \<and> currentQ sample_waiting = Some (sample_question ''q1'' ''Inference'')
   \<and> parseInt10 (lit ''7'') = Some 7
   \<and> (7::int) > int (length (q_options (sample_question ''q1'' ''Inference'')))
   \<and> handler (sample_env [] 9000) (lit ''u1'') (lit ''7'') sample_waiting
       = Inr \<lparr>o_session = sample_waiting, o_replies = [PleaseReply 2], o_attempts = [],
              o_persisted = False\<rparr>
   \<and> parseInt10 (lit ''two'') = None
   \<and> handler (sample_env [] 9000) (lit ''u1'') (lit ''two'') sample_waiting
       = Inr \<lparr>o_session = sample_waiting, o_replies = [PleaseReply 2], o_attempts = [],
              o_persisted = False\<rparr>"
proof -
  have a: "state sample_waiting = WAITING_ANSWER"
    and b: "currentQ sample_waiting = Some (sample_question ''q1'' ''Inference'')"
    by (simp_all add: sample_waiting_def)
  have c: "parseInt10 (lit ''7'') = Some 7"
    by (simp add: parseInt10_def lit_def isWhiteSpace_def isDigit_def digitsValue_def)
  have d: "(7::int) > int (length (q_options (sample_question ''q1'' ''Inference'')))"
    by (simp add: sample_question_def)
  have c': "parseInt10 (lit ''two'') = None"
    by (simp add: parseInt10_def lit_def isWhiteSpace_def isDigit_def)
  from c d have "parseInt10 (lit ''7'') = None
         \<or> (\<exists>n. parseInt10 (lit ''7'') = Some n
              \<and> (n < 1 \<or> n > int (length (q_options (sample_question ''q1'' ''Inference'')))))"
    by simp
  from invalid_answer_leaves_session [OF a b this, of "sample_env [] 9000" "lit ''u1''"]
  have h: "handler (sample_env [] 9000) (lit ''u1'') (lit ''7'') sample_waiting
       = Inr \<lparr>o_session = sample_waiting, o_replies = [PleaseReply 2], o_attempts = [],
              o_persisted = False\<rparr>"
    by (simp add: sample_question_def)
  from c' have "parseInt10 (lit ''two'') = None
         \<or> (\<exists>n. parseInt10 (lit ''two'') = Some n
              \<and> (n < 1 \<or> n > int (length (q_options (sample_question ''q1'' ''Inference'')))))"
    by simp
  from invalid_answer_leaves_session [OF a b this, of "sample_env [] 9000" "lit ''u1''"]
  have h': "handler (sample_env [] 9000) (lit ''u1'') (lit ''two'') sample_waiting
       = Inr \<lparr>o_session = sample_waiting, o_replies = [PleaseReply 2], o_attempts = [],
              o_persisted = False\<rparr>"
    by (simp add: sample_question_def)
  from a b c d h c' h' show ?thesis
    by simp
qed

section \<open>Skipping a section\<close>

text \<open>
  C9. In a session in state \<open>ASKING\<close> whose index points at a section with no question
  left to ask (the pool of the section, without the ids already answered in it, is
  empty), one run of the handler adds one to the index, leaves the state \<open>ASKING\<close> and
  everything else of the session, stores the session, and sends the skip notice of the
  section as its only reply: no question is dispatched in that run.
\<close>

theorem skip_section:
  assumes "state s = ASKING" and "sectionIndex s < length SECTIONS"
    and "poolOf (e_questions e) (SECTIONS ! sectionIndex s)
           (askedIdsOf (answers s) (SECTIONS ! sectionIndex s)) = []"
  shows "handler e userId body s
         = Inr \<lparr>o_session = s\<lparr>sectionIndex := sectionIndex s + 1\<rparr>,
                o_replies = [Skipping (SECTIONS ! sectionIndex s)],
                o_attempts = [], o_persisted = True\<rparr>"
  using assms
  by (simp add: handler_def start_test_def record_answer_def ask_next_def Let_def
      pickNextQuestion_empty_pool)

theorem skip_section_witness:
  "state sample_answered = ASKING
   \<and> sectionIndex sample_answered < length SECTIONS
   \<and> poolOf [sample_question ''q1'' ''Inference''] (SECTIONS ! sectionIndex sample_answered)
        (askedIdsOf (answers sample_answered) (SECTIONS ! sectionIndex sample_answered)) = []
   \<and> handler (sample_env [sample_question ''q1'' ''Inference''] 9000) (lit ''u1'') (lit ''ok'')
        sample_answered
       = Inr \<lparr>o_session = \<lparr>state = ASKING, sectionIndex = 3, asked = [],
                            answers = [sample_answer], qStart = 1002, currentQ = None\<rparr>,
              o_replies = [Skipping (lit ''Deduction'')], o_attempts = [],
              o_persisted = True\<rparr>"
proof -
  have a: "state sample_answered = ASKING"
    and b: "sectionIndex sample_answered < length SECTIONS"
    and i: "SECTIONS ! sectionIndex sample_answered = lit ''Deduction''"
    by (simp_all add: sample_answered_def SECTIONS_def)
  have c: "poolOf (e_questions (sample_env [sample_question ''q1'' ''Inference''] 9000))
        (SECTIONS ! sectionIndex sample_answered)
        (askedIdsOf (answers sample_answered) (SECTIONS ! sectionIndex sample_answered)) = []"
    by (simp add: i poolOf_def sample_env_def sample_question_def lit_def)
  from skip_section [OF a b c, of "lit ''u1''" "lit ''ok''"] c a b show ?thesis
    by (simp add: i sample_env_def) (simp add: sample_answered_def)
qed

section \<open>Properties of the scoring\<close>

lemma statsOf_snoc: "tally_step (statsOf as) a = statsOf (as @ [a])"
  by (rule ext) (auto simp: tally_step_def statsOf_def Let_def filter_empty_conv)

lemma bySectionOf_statsOf: "bySectionOf as = statsOf as"
proof (induction as rule: rev_induct)
  case Nil
  show ?case
    by (rule ext) (simp add: bySectionOf_def statsOf_def)
next
  case (snoc a as)
  then show ?case
    by (simp add: bySectionOf_def statsOf_snoc)
qed

lemma foldl_totals_step:
  "foldl (totals_step m) acc ss =
     (fst acc + sum_list (map (sectionCorrect m) ss),
      snd acc + sum_list (map (sectionTotal m) ss))"
  by (induction ss arbitrary: acc)
     (auto simp: totals_step_def sectionCorrect_def sectionTotal_def split: option.splits)

lemma totalsOf_sums:
  "totalsOf m =
     (sum_list (map (sectionCorrect m) SECTIONS), sum_list (map (sectionTotal m) SECTIONS))"
  by (simp add: totalsOf_def foldl_totals_step)

lemma sectionTotal_count:
  "sectionTotal (bySectionOf as) s = length (filter (\<lambda>a. a_section a = s) as)"
  by (simp add: sectionTotal_def bySectionOf_statsOf statsOf_def)

lemma sectionCorrect_count:
  "sectionCorrect (bySectionOf as) s
   = length (filter (\<lambda>a. a_section a = s \<and> a_isCorrect a) as)"
proof (cases "filter (\<lambda>a. a_section a = s) as = []")
  case True
  then have "filter (\<lambda>a. a_section a = s \<and> a_isCorrect a) as = []"
    by (auto simp: filter_empty_conv)
  with True show ?thesis
    by (simp add: sectionCorrect_def bySectionOf_statsOf statsOf_def)
next
  case False
  then show ?thesis
    by (simp add: sectionCorrect_def bySectionOf_statsOf statsOf_def)
qed

lemma sectionCorrect_le_total:
  "sectionCorrect (bySectionOf as) s \<le> sectionTotal (bySectionOf as) s"
proof -
  have "length (filter (\<lambda>a. a_section a = s \<and> a_isCorrect a) as)
        = length (filter a_isCorrect (filter (\<lambda>a. a_section a = s) as))"
    by (simp add: conj_commute)
  also have "\<dots> \<le> length (filter (\<lambda>a. a_section a = s) as)"
    by (rule length_filter_le)
  finally show ?thesis
    by (simp add: sectionTotal_count sectionCorrect_count)
qed

text \<open>When the index has passed the last section, the handler scores the answers.\<close>

lemma handler_complete:
  assumes "state s = ASKING" and "length SECTIONS \<le> sectionIndex s"
  shows "handler e userId body s
         = Inr \<lparr>o_session = s\<lparr>state := IDLE\<rparr>,
                o_replies =
                  [TestComplete (fst (totalsOf (bySectionOf (answers s))))
                     (snd (totalsOf (bySectionOf (answers s))))
                     (pctOf (fst (totalsOf (bySectionOf (answers s))))
                        (snd (totalsOf (bySectionOf (answers s)))))
                     (rationaleLinesOf (e_questions e) (bySectionOf (answers s)))],
                o_attempts = [], o_persisted = True\<rparr>"
  using assms
  by (simp add: handler_def start_test_def record_answer_def ask_next_def Let_def)

text \<open>
  C5. For every list of answers, the scoring computes \<open>totalCorrect\<close> and \<open>total\<close>
  (the two components of \<open>totalsOf\<close>) with \<open>totalCorrect \<le> total\<close>; \<open>total\<close> is the
  sum, over the sections in their fixed order, of the per-section totals, each of which
  is the number of answers of the section; \<open>totalCorrect\<close> is the same sum of the
  numbers of correct answers; and the percentage is 0 when \<open>total\<close> is 0 and otherwise
  \<open>100 * totalCorrect / total\<close> rounded to the nearest integer.
\<close>

theorem scoring_totals:
  "fst (totalsOf (bySectionOf as)) \<le> snd (totalsOf (bySectionOf as))
   \<and> snd (totalsOf (bySectionOf as)) = (\<Sum>s\<leftarrow>SECTIONS. sectionTotal (bySectionOf as) s)
   \<and> snd (totalsOf (bySectionOf as))
       = (\<Sum>s\<leftarrow>SECTIONS. length (filter (\<lambda>a. a_section a = s) as))
   \<and> fst (totalsOf (bySectionOf as))
       = (\<Sum>s\<leftarrow>SECTIONS. length (filter (\<lambda>a. a_section a = s \<and> a_isCorrect a) as))
   \<and> pctOf (fst (totalsOf (bySectionOf as))) (snd (totalsOf (bySectionOf as)))
       = (if snd (totalsOf (bySectionOf as)) = 0 then 0
          else round (100 * real (fst (totalsOf (bySectionOf as)))
                        / real (snd (totalsOf (bySectionOf as)))))"
proof -
  have le: "fst (totalsOf (bySectionOf as)) \<le> snd (totalsOf (bySectionOf as))"
    by (simp add: totalsOf_sums sum_list_mono sectionCorrect_le_total)
  have t: "snd (totalsOf (bySectionOf as))
           = (\<Sum>s\<leftarrow>SECTIONS. sectionTotal (bySectionOf as) s)"
    by (simp add: totalsOf_sums)
  have t2: "snd (totalsOf (bySectionOf as))
            = (\<Sum>s\<leftarrow>SECTIONS. length (filter (\<lambda>a. a_section a = s) as))"
    by (simp add: totalsOf_sums sectionTotal_count [abs_def])
  have c: "fst (totalsOf (bySectionOf as))
       = (\<Sum>s\<leftarrow>SECTIONS. length (filter (\<lambda>a. a_section a = s \<and> a_isCorrect a) as))"
    by (simp add: totalsOf_sums sectionCorrect_count [abs_def])
  have p: "pctOf tc t = (if t = 0 then 0 else round (100 * real tc / real t))" for tc t
    by (simp add: pctOf_def Math_round_def round_def)
  from le t t2 c p show ?thesis
    by blast
qed

text \<open>
  Two of three answers correct, with one answer of a section that is not in the list of
  sections and is not counted: 1 of 2, which is 50 percent.
\<close>

theorem scoring_totals_witness:
  "totalsOf (bySectionOf
      [sample_answer,
       sample_answer\<lparr>a_qid := lit ''q2'', a_section := lit ''Deduction'', a_selected := 1,
                      a_isCorrect := True\<rparr>,
       sample_answer\<lparr>a_qid := lit ''q3'', a_section := lit ''Other'', a_selected := 1,
                      a_isCorrect := True\<rparr>]) = (1, 2)
   \<and> pctOf 1 2 = 50"
proof -
  let ?as = "[sample_answer,
       sample_answer\<lparr>a_qid := lit ''q2'', a_section := lit ''Deduction'', a_selected := 1,
                      a_isCorrect := True\<rparr>,
       sample_answer\<lparr>a_qid := lit ''q3'', a_section := lit ''Other'', a_selected := 1,
                      a_isCorrect := True\<rparr>]"
  have f: "fst (totalsOf (bySectionOf ?as)) = 1"
    using scoring_totals [of ?as]
    by (simp add: SECTIONS_def sample_answer_def lit_def)
  have s: "snd (totalsOf (bySectionOf ?as)) = 2"
    using scoring_totals [of ?as]
    by (simp add: SECTIONS_def sample_answer_def lit_def)
  have p: "pctOf 1 2 = 50"
    by (simp add: pctOf_def Math_round_def)
  from f s p show ?thesis
    by (simp add: prod_eq_iff)
qed

section \<open>Feedback lines\<close>

lemma find_filter_conv:
  "find P xs = (case filter P xs of [] \<Rightarrow> None | x # _ \<Rightarrow> Some x)"
  by (induction xs) auto

lemma rationale_step_feedbackLine:
  "rationale_step qs (bySectionOf as) acc s = acc @ feedbackLine qs as s"
proof (cases "filter (\<lambda>a. a_section a = s \<and> \<not> a_isCorrect a) as")
  case Nil
  then show ?thesis
    by (simp add: rationale_step_def bySectionOf_statsOf statsOf_def feedbackLine_def
        feedbackRationale_def firstIncorrect_def find_filter_conv)
next
  case (Cons a rest)
  then have "a \<in> set (filter (\<lambda>a. a_section a = s \<and> \<not> a_isCorrect a) as)"
    by simp
  then have "a \<in> set (filter (\<lambda>a. a_section a = s) as)"
    by simp
  then have ne: "filter (\<lambda>a. a_section a = s) as \<noteq> []"
    by (metis empty_iff empty_set)
  show ?thesis
    using Cons ne
    by (simp add: rationale_step_def bySectionOf_statsOf statsOf_def feedbackLine_def
        feedbackRationale_def firstIncorrect_def find_filter_conv split: option.splits)
qed

lemma foldl_rationale_step:
  "foldl (rationale_step qs (bySectionOf as)) acc ss
   = acc @ concat (map (feedbackLine qs as) ss)"
  by (induction ss arbitrary: acc) (simp_all add: rationale_step_feedbackLine)

lemma map_fst_concat_feedbackLine:
  "map fst (concat (map (feedbackLine qs as) ss))
   = filter (\<lambda>s. feedbackRationale qs as s \<noteq> None) ss"
  by (induction ss) (auto simp: feedbackLine_def split: option.splits)

lemma distinct_SECTIONS: "distinct SECTIONS"
  by (simp add: SECTIONS_def lit_def)

text \<open>
  C6. For every list of answers and every list of questions, the feedback lines of the
  summary are, section by section in the fixed order, the feedback line of each section:
  one line, with the name of the section and the rationale, when the section has an
  incorrect answer and the question of its first incorrect answer has a rationale that
  is present and not empty, and no line otherwise. So the sections of the lines are the
  sections with such a rationale, in order and each once.
\<close>

theorem feedback_lines:
  "rationaleLinesOf qs (bySectionOf as) = concat (map (feedbackLine qs as) SECTIONS)
   \<and> map fst (rationaleLinesOf qs (bySectionOf as))
       = filter (\<lambda>s. feedbackRationale qs as s \<noteq> None) SECTIONS
   \<and> distinct (map fst (rationaleLinesOf qs (bySectionOf as)))"
proof -
  have a: "rationaleLinesOf qs (bySectionOf as) = concat (map (feedbackLine qs as) SECTIONS)"
    by (simp add: rationaleLinesOf_def foldl_rationale_step)
  have b: "map fst (rationaleLinesOf qs (bySectionOf as))
       = filter (\<lambda>s. feedbackRationale qs as s \<noteq> None) SECTIONS"
    by (simp only: a map_fst_concat_feedbackLine)
  have c: "distinct (map fst (rationaleLinesOf qs (bySectionOf as)))"
    using distinct_SECTIONS by (simp only: b distinct_filter)
  from a b c show ?thesis
    by blast
qed

text \<open>
  One incorrect answer, to a question with a rationale, and one incorrect answer to a
  question whose rationale is empty: one feedback line, of the first.
\<close>

theorem feedback_lines_witness:
  "rationaleLinesOf
     [sample_question ''q1'' ''Inference'',
      (sample_question ''q2'' ''Deduction'')\<lparr>q_rationale := Some []\<rparr>]
     (bySectionOf
        [sample_answer, sample_answer\<lparr>a_qid := lit ''q2'', a_section := lit ''Deduction''\<rparr>])
   = [(lit ''Inference'', lit ''because'')]"
  using feedback_lines [of
      "[sample_question ''q1'' ''Inference'',
        (sample_question ''q2'' ''Deduction'')\<lparr>q_rationale := Some []\<rparr>]"
      "[sample_answer, sample_answer\<lparr>a_qid := lit ''q2'', a_section := lit ''Deduction''\<rparr>]"]
  by (simp add: SECTIONS_def feedbackLine_def feedbackRationale_def firstIncorrect_def
      sample_answer_def sample_question_def lit_def)

section \<open>The invariant of the sessions\<close>

lemma nth_notin_take:
  assumes "distinct xs" and "i < length xs"
  shows "xs ! i \<notin> set (take i xs)"
proof
  assume "xs ! i \<in> set (take i xs)"
  then obtain j where j: "j < length (take i xs)" "take i xs ! j = xs ! i"
    by (auto simp: in_set_conv_nth)
  then have "j < i" and "xs ! j = xs ! i"
    by simp_all
  with assms show False
    by (simp add: nth_eq_iff_index_eq)
qed

lemma distinct_map_filter_le_1:
  "distinct (map f xs) \<Longrightarrow> length (filter (\<lambda>x. f x = k) xs) \<le> 1"
proof (induction xs)
  case Nil
  then show ?case
    by simp
next
  case (Cons x xs)
  show ?case
  proof (cases "f x = k")
    case True
    from Cons.prems have "f x \<notin> f ` set xs"
      by simp
    with True have "\<forall>y\<in>set xs. f y \<noteq> k"
      by blast
    then have "filter (\<lambda>x. f x = k) xs = []"
      by (simp add: filter_empty_conv)
    with True show ?thesis
      by simp
  next
    case False
    with Cons show ?thesis
      by simp
  qed
qed

lemma session_inv_fresh: "session_inv (fresh_session now)"
  by (simp add: session_inv_def fresh_session_def)

lemma session_inv_start_test:
  assumes "session_inv s"
  shows "session_inv (fst (start_test body s))"
proof (cases "state s = IDLE \<and> start_regex_test body")
  case True
  then have "fst (start_test body s) = s\<lparr>state := ASKING, sectionIndex := 0, answers := []\<rparr>"
    by (simp add: start_test_def)
  then show ?thesis
    by (simp add: session_inv_def)
next
  case False
  then have "fst (start_test body s) = s"
    by (auto simp: start_test_def)
  with assms show ?thesis
    by simp
qed

lemma record_answer_Return:
  "record_answer e userId body out = Inr (Return out') \<Longrightarrow> o_session out' = o_session out"
  by (auto simp: record_answer_def Let_def split: if_splits option.splits)

lemma session_inv_record_answer:
  assumes inv: "session_inv (o_session out)"
    and r: "record_answer e userId body out = Inr (Proceed out')"
  shows "session_inv (o_session out')"
proof (cases "state (o_session out) = WAITING_ANSWER")
  case False
  with r have "out' = out"
    by (simp add: record_answer_def Let_def)
  with inv show ?thesis
    by simp
next
  case True
  define s where "s = o_session out"
  from inv True obtain q where q: "currentQ s = Some q" "0 < sectionIndex s"
    "q_section q = SECTIONS ! (sectionIndex s - 1)"
    "set (map a_section (answers s)) \<subseteq> set (take (sectionIndex s - 1) SECTIONS)"
    and d: "distinct (map a_section (answers s))" and le: "sectionIndex s \<le> length SECTIONS"
    by (auto simp: session_inv_def s_def split: option.splits)
  define n where "n = (case parseInt10 body of None \<Rightarrow> 0 | Some n \<Rightarrow> n)"
  define a where "a = \<lparr>a_qid = q_id q, a_section = q_section q, a_selected = n,
      a_correct = q_correct q, a_isCorrect = (n = q_correct q),
      a_latency = e_now_answer e - qStart s\<rparr>"
  have a: "a_section a = q_section q"
    by (simp add: a_def)
  from r True q(1)
  have s': "o_session out' = s\<lparr>answers := answers s @ [a], state := ASKING, currentQ := None\<rparr>"
    by (auto simp: record_answer_def Let_def s_def a_def n_def split: if_splits)
  have lt: "sectionIndex s - 1 < length SECTIONS"
    using q le by simp
  have notin: "SECTIONS ! (sectionIndex s - 1) \<notin> set (take (sectionIndex s - 1) SECTIONS)"
    by (rule nth_notin_take [OF distinct_SECTIONS lt])
  have tk: "take (sectionIndex s) SECTIONS
            = take (sectionIndex s - 1) SECTIONS @ [SECTIONS ! (sectionIndex s - 1)]"
    using take_Suc_conv_app_nth [OF lt] q(2) by simp
  have d': "distinct (map a_section (answers s @ [a]))"
    using d q(3,4) a notin by auto
  have sub: "set (map a_section (answers s @ [a])) \<subseteq> set (take (sectionIndex s) SECTIONS)"
    using q(3,4) a by (auto simp: tk)
  show ?thesis
    using d' sub le by (simp add: s' session_inv_def)
qed

lemma session_inv_ask_next:
  assumes inv: "session_inv (o_session out)"
  shows "session_inv (o_session (ask_next e out))"
proof (cases "state (o_session out) = ASKING")
  case False
  then show ?thesis
    using inv by (simp add: ask_next_def Let_def)
next
  case asking: True
  define s where "s = o_session out"
  from inv asking have d: "distinct (map a_section (answers s))"
    and le: "sectionIndex s \<le> length SECTIONS"
    and sub: "set (map a_section (answers s)) \<subseteq> set (take (sectionIndex s) SECTIONS)"
    by (simp_all add: session_inv_def s_def)
  show ?thesis
  proof (cases "length SECTIONS \<le> sectionIndex s")
    case True
    with asking d le sub show ?thesis
      by (simp add: ask_next_def Let_def s_def [symmetric] session_inv_def)
  next
    case False
    then have lt: "sectionIndex s < length SECTIONS"
      by simp
    have sub': "set (map a_section (answers s)) \<subseteq> set (take (Suc (sectionIndex s)) SECTIONS)"
      using sub set_take_subset_set_take [of "sectionIndex s" "Suc (sectionIndex s)" SECTIONS]
      by auto
    show ?thesis
    proof (cases "pickNextQuestion (e_random e) (e_questions e) (SECTIONS ! sectionIndex s)
                    (askedIdsOf (answers s) (SECTIONS ! sectionIndex s))")
      case None
      with asking lt d sub' show ?thesis
        by (simp add: ask_next_def Let_def s_def [symmetric] session_inv_def)
    next
      case (Some q)
      from pickNextQuestion_in_pool [OF Some] have "q_section q = SECTIONS ! sectionIndex s"
        by (simp add: poolOf_def)
      with Some asking lt d sub show ?thesis
        by (simp add: ask_next_def Let_def s_def [symmetric] session_inv_def)
    qed
  qed
qed

lemma session_inv_handler:
  assumes "session_inv s" and "handler e userId body s = Inr out"
  shows "session_inv (o_session out)"
proof -
  define out1 where "out1 = \<lparr>o_session = fst (start_test body s),
      o_replies = snd (start_test body s), o_attempts = [], o_persisted = False\<rparr>"
  have inv1: "session_inv (o_session out1)"
    using assms(1) by (simp add: out1_def session_inv_start_test)
  show ?thesis
  proof (cases "record_answer e userId body out1")
    case (Inl err)
    with assms(2) show ?thesis
      by (simp add: handler_def Let_def out1_def)
  next
    case (Inr fl)
    show ?thesis
    proof (cases fl)
      case (Return out2)
      with Inr assms(2) have "out = out2"
        by (simp add: handler_def Let_def out1_def)
      moreover from Inr Return have "o_session out2 = o_session out1"
        by (simp add: record_answer_Return)
      ultimately show ?thesis
        using inv1 by simp
    next
      case (Proceed out2)
      with Inr assms(2) have "out = ask_next e out2"
        by (simp add: handler_def Let_def out1_def)
      moreover from Inr Proceed inv1 have "session_inv (o_session out2)"
        by (simp add: session_inv_record_answer)
      ultimately show ?thesis
        by (simp add: session_inv_ask_next)
    qed
  qed
qed

lemma reachable_session_inv: "reachable s \<Longrightarrow> session_inv s"
  by (induction rule: reachable.induct) (auto intro: session_inv_fresh session_inv_handler)

lemma handler_returns:
  assumes "session_inv s"
  shows "\<exists>out. handler e userId body s = Inr out"
proof (cases "state s = WAITING_ANSWER")
  case False
  then have "state (fst (start_test body s)) \<noteq> WAITING_ANSWER"
    by (simp add: start_test_def)
  then show ?thesis
    by (simp add: handler_def Let_def record_answer_def)
next
  case True
  with assms obtain q where "currentQ s = Some q"
    by (auto simp: session_inv_def split: option.splits)
  with True show ?thesis
    by (simp add: handler_def Let_def record_answer_def start_test_def)
qed

text \<open>The two sample sessions are sessions that the handler leaves.\<close>

lemma handler_start_sample:
  "handler (sample_env [sample_question ''q1'' ''Inference''] 1000) (lit ''u1'') (lit ''start'')
     (fresh_session 0)
   = Inr \<lparr>o_session = sample_waiting,
          o_replies = [Started,
            AskQuestion (lit ''Inference'') None (lit ''Is it so?'') [lit ''yes'', lit ''no'']],
          o_attempts = [], o_persisted = True\<rparr>"
proof -
  have m: "start_regex_test (lit ''start'')"
    by (simp add: start_regex_test_def)
  have st: "start_test (lit ''start'') (fresh_session 0)
       = (\<lparr>state = ASKING, sectionIndex = 0, asked = [], answers = [], qStart = 0,
           currentQ = None\<rparr>, [Started])"
    using m by (simp add: start_test_def fresh_session_def)
  have pk: "pickNextQuestion (1 / 2) [sample_question ''q1'' ''Inference''] (lit ''Inference'')
      (askedIdsOf [] (lit ''Inference'')) = Some (sample_question ''q1'' ''Inference'')"
    by (simp add: pickNextQuestion_def poolOf_def askedIdsOf_def sample_question_def)
  show ?thesis
    by (simp add: handler_def st record_answer_def ask_next_def Let_def SECTIONS_def
        sample_env_def pk sample_waiting_def)
       (simp add: sample_question_def)
qed

lemma handler_answer_sample:
  "handler (sample_env [sample_question ''q1'' ''Inference''] 9000) (lit ''u1'') (lit ''2'')
     sample_waiting
   = Inr \<lparr>o_session = sample_answered,
          o_replies = [Skipping (lit ''Assumptions'')],
          o_attempts = [\<lparr>at_user_id = lit ''u1'', at_qid = lit ''q1'',
            at_section = lit ''Inference'', at_selected = 2, at_correct = 1,
            at_is_correct = False, at_latency_ms = 7998, at_id_time = 9001\<rparr>],
          o_persisted = True\<rparr>"
proof -
  have p: "parseInt10 (lit ''2'') = Some 2"
    by (simp add: parseInt10_def lit_def isWhiteSpace_def isDigit_def digitsValue_def)
  have pk: "pickNextQuestion (1 / 2) [sample_question ''q1'' ''Inference''] (lit ''Assumptions'')
      askedIds = None" for askedIds
    by (simp add: pickNextQuestion_def poolOf_def sample_question_def lit_def)
  show ?thesis
    by (simp add: handler_def start_test_def record_answer_def p ask_next_def Let_def
        SECTIONS_def sample_env_def pk sample_waiting_def sample_answered_def
        sample_answer_def)
       (simp add: sample_question_def)
qed

lemma reachable_sample_waiting: "reachable sample_waiting"
  using reachable.step [OF reachable.fresh handler_start_sample] by simp

lemma reachable_sample_answered: "reachable sample_answered"
  using reachable.step [OF reachable_sample_waiting handler_answer_sample] by simp

text \<open>
  C8. In every session that the handler can load, the index is between 0 and the number
  of sections, and a run of the handler leaves it so: no run takes the index beyond the
  number of sections.
\<close>

theorem sectionIndex_bounded:
  assumes "reachable s"
  shows "0 \<le> sectionIndex s \<and> sectionIndex s \<le> length SECTIONS
         \<and> (\<forall>e userId body out. handler e userId body s = Inr out
              \<longrightarrow> sectionIndex (o_session out) \<le> length SECTIONS)"
proof -
  have "sectionIndex s \<le> length SECTIONS"
    using reachable_session_inv [OF assms] by (simp add: session_inv_def)
  moreover have "sectionIndex (o_session out) \<le> length SECTIONS"
    if "handler e userId body s = Inr out" for e userId body out
    using reachable_session_inv [OF reachable.step [OF assms that]]
    by (simp add: session_inv_def)
  ultimately show ?thesis
    by simp
qed

theorem sectionIndex_bounded_witness:
  "reachable sample_waiting
   \<and> sectionIndex sample_waiting = 1 \<and> sectionIndex sample_waiting \<le> length SECTIONS
   \<and> sectionIndex sample_answered = 2 \<and> sectionIndex sample_answered \<le> length SECTIONS"
  using sectionIndex_bounded [OF reachable_sample_waiting]
    sectionIndex_bounded [OF reachable_sample_answered] reachable_sample_waiting
  by (simp add: sample_waiting_def sample_answered_def)

text \<open>
  C10. In every session that the handler can load, a session in state
  \<open>WAITING_ANSWER\<close> has a pending question; so no run of the handler on such a session
  throws on the read of the options of an absent question: every run returns.
\<close>

theorem waiting_has_question:
  assumes "reachable s"
  shows "(state s = WAITING_ANSWER \<longrightarrow> currentQ s \<noteq> None)
         \<and> (\<forall>e userId body. handler e userId body s \<noteq> Inl TypeError
              \<and> (\<exists>out. handler e userId body s = Inr out))"
proof -
  have inv: "session_inv s"
    by (rule reachable_session_inv [OF assms])
  have "state s = WAITING_ANSWER \<longrightarrow> currentQ s \<noteq> None"
    using inv by (auto simp: session_inv_def split: option.splits)
  moreover have "handler e userId body s \<noteq> Inl TypeError
      \<and> (\<exists>out. handler e userId body s = Inr out)" for e userId body
    using handler_returns [OF inv, of e userId body] by auto
  ultimately show ?thesis
    by blast
qed

theorem waiting_has_question_witness:
  "reachable sample_waiting \<and> state sample_waiting = WAITING_ANSWER
   \<and> currentQ sample_waiting \<noteq> None
   \<and> handler (sample_env [] 9000) (lit ''u1'') (lit ''two'') sample_waiting \<noteq> Inl TypeError"
  using waiting_has_question [OF reachable_sample_waiting] reachable_sample_waiting
  by (simp add: sample_waiting_def)

text \<open>
  C4. In every session that the handler can load, the answers hold at most one entry
  for each pair of a section and a question id, and at most one entry for each section:
  a section is dispatched once, since the index moves on when its question is sent.
\<close>

theorem answers_one_per_section:
  assumes "reachable s"
  shows "(\<forall>sec qid. length (filter (\<lambda>a. a_section a = sec \<and> a_qid a = qid) (answers s)) \<le> 1)
         \<and> (\<forall>sec. length (filter (\<lambda>a. a_section a = sec) (answers s)) \<le> 1)
         \<and> distinct (map (\<lambda>a. (a_section a, a_qid a)) (answers s))
         \<and> distinct (map a_section (answers s))"
proof -
  have d: "distinct (map a_section (answers s))"
    using reachable_session_inv [OF assms] by (simp add: session_inv_def)
  have one: "length (filter (\<lambda>a. a_section a = sec) (answers s)) \<le> 1" for sec
    by (rule distinct_map_filter_le_1 [OF d])
  have "length (filter (\<lambda>a. a_section a = sec \<and> a_qid a = qid) (answers s)) \<le> 1"
    for sec qid
  proof -
    have "length (filter (\<lambda>a. a_section a = sec \<and> a_qid a = qid) (answers s))
          = length (filter (\<lambda>a. a_qid a = qid) (filter (\<lambda>a. a_section a = sec) (answers s)))"
      by (simp add: conj_commute)
    also have "\<dots> \<le> length (filter (\<lambda>a. a_section a = sec) (answers s))"
      by (rule length_filter_le)
    finally show ?thesis
      using one [of sec] by simp
  qed
  moreover have "distinct (map (\<lambda>a. (a_section a, a_qid a)) (answers s))"
  proof -
    have "map a_section (answers s) = map fst (map (\<lambda>a. (a_section a, a_qid a)) (answers s))"
      by (simp add: comp_def)
    with d show ?thesis
      by (metis distinct_map)
  qed
  ultimately show ?thesis
    using one d by blast
qed

theorem answers_one_per_section_witness:
  "reachable sample_answered \<and> answers sample_answered = [sample_answer]
   \<and> length (filter (\<lambda>a. a_section a = lit ''Inference'') (answers sample_answered)) = 1
   \<and> distinct (map a_section (answers sample_answered))"
  using answers_one_per_section [OF reachable_sample_answered] reachable_sample_answered
  by (simp add: sample_answered_def sample_answer_def)

end
